theory Spec2Isabelle
  imports Main
begin

text \<open>
  A Redux store for one quiz question (\<^verbatim>\<open>src/index.ts\<close>) and the stub server that
  accepts its validation request. The reducer, the selectors and the two thunks are
  embedded as functions on explicit states; the properties follow the definitions.
\<close>

section \<open>Domain: questions and answers\<close>

text \<open>
  The TypeScript source declares
  \<^verbatim>\<open>type Answer = { id: string; text: string; isCorrect: boolean; isSelected: boolean }\<close>.
  At run time the reducer can build \<^verbatim>\<open>{ ...state.answers[idx], isSelected }\<close> with
  \<^verbatim>\<open>state.answers[idx]\<close> undefined; spreading \<^verbatim>\<open>undefined\<close> copies nothing, so the
  object has the property \<^verbatim>\<open>isSelected\<close> only. The three other properties are therefore
  optional in the model (\<open>None\<close> is JavaScript's \<^verbatim>\<open>undefined\<close>); \<^verbatim>\<open>isSelected\<close> is
  written by every object literal of the program and stays a plain boolean.
  The fields \<^verbatim>\<open>id\<close>, \<^verbatim>\<open>type\<close> and \<^verbatim>\<open>text\<close> carry the name of their record as a prefix.
\<close>

datatype QuestionType = UCQ | MCQ

record Answer =
  answer_id :: "string option"
  answer_text :: "string option"
  isCorrect :: "bool option"
  isSelected :: bool

record Question =
  question_id :: string
  question_type :: QuestionType
  question_text :: string
  answers :: "Answer list"
  isValidated :: bool

type_synonym AppState = "Question option"

text \<open>
  An answer as the type \<^verbatim>\<open>Answer\<close> describes it has all its properties; a question is
  well typed when all its answers are.
\<close>

definition typed_answer :: "Answer \<Rightarrow> bool" where
  "typed_answer a \<longleftrightarrow> answer_id a \<noteq> None \<and> answer_text a \<noteq> None \<and> isCorrect a \<noteq> None"

definition typed_question :: "Question \<Rightarrow> bool" where
  "typed_question q \<longleftrightarrow> list_all typed_answer (answers q)"

section \<open>Actions\<close>

text \<open>
  \<^verbatim>\<open>createAction(type, payload)\<close> builds \<^verbatim>\<open>{ type, ...payload }\<close>: one constructor per
  action type, its arguments the payload. \<open>OtherAction\<close> stands for any action of another
  type, such as the one Redux dispatches when the store is created; the reducer's last
  line answers it.
\<close>

datatype AppAction =
    SetQuestion Question
  | SetAnswerSelected "string option" bool
  | SetQuestionValidated string bool
  | OtherAction

definition setQuestion :: "Question \<Rightarrow> AppAction" where
  "setQuestion question = SetQuestion question"

definition setAnswerSelected :: "Answer \<Rightarrow> bool \<Rightarrow> AppAction" where
  "setAnswerSelected answer sel = SetAnswerSelected (answer_id answer) sel"

definition setQuestionValidated :: "Question \<Rightarrow> bool \<Rightarrow> AppAction" where
  "setQuestionValidated question validated = SetQuestionValidated (question_id question) validated"

section \<open>JavaScript array operations used by the reducer\<close>

text \<open>
  \<^verbatim>\<open>Array.prototype.findIndex\<close> returns the index of the first element that satisfies
  the predicate and \<open>-1\<close> when there is none.
\<close>

fun findIndexFrom :: "('a \<Rightarrow> bool) \<Rightarrow> 'a list \<Rightarrow> int \<Rightarrow> int" where
  "findIndexFrom P [] k = - 1"
| "findIndexFrom P (x # xs) k = (if P x then k else findIndexFrom P xs (k + 1))"

definition findIndex :: "('a \<Rightarrow> bool) \<Rightarrow> 'a list \<Rightarrow> int" where
  "findIndex P xs = findIndexFrom P xs 0"

text \<open>
  \<^verbatim>\<open>Array.prototype.slice(start, end)\<close>: a negative bound counts from the end of the
  array, both bounds are clamped to \<open>0 .. length\<close>, and a missing \<^verbatim>\<open>end\<close> is the length.
\<close>

definition slice :: "'a list \<Rightarrow> int \<Rightarrow> int option \<Rightarrow> 'a list" where
  "slice xs start stop =
     (let len = int (length xs);
          k = (if start < 0 then max (len + start) 0 else min start len);
          final = (case stop of
                     None \<Rightarrow> len
                   | Some e \<Rightarrow> if e < 0 then max (len + e) 0 else min e len)
      in take (nat (final - k)) (drop (nat k) xs))"

text \<open>\<^verbatim>\<open>xs[i]\<close> is \<^verbatim>\<open>undefined\<close> when \<open>i\<close> is not an index of the array.\<close>

definition element_at :: "'a list \<Rightarrow> int \<Rightarrow> 'a option" where
  "element_at xs i = (if 0 \<le> i \<and> i < int (length xs) then Some (xs ! nat i) else None)"

text \<open>\<^verbatim>\<open>{ ...x, isSelected: sel }\<close>, where \<open>x\<close> is an answer or \<^verbatim>\<open>undefined\<close>.\<close>

definition spread_isSelected :: "Answer option \<Rightarrow> bool \<Rightarrow> Answer" where
  "spread_isSelected x sel =
     (case x of
        None \<Rightarrow> \<lparr>answer_id = None, answer_text = None, isCorrect = None, isSelected = sel\<rparr>
      | Some a \<Rightarrow> a\<lparr>isSelected := sel\<rparr>)"

section \<open>The reducer\<close>

fun reducer :: "AppState \<Rightarrow> AppAction \<Rightarrow> AppState" where
  "reducer state (SetQuestion question) = Some question"
| "reducer None action = None"
| "reducer (Some state) (SetQuestionValidated questionId validated) =
     Some (state\<lparr>isValidated := validated\<rparr>)"
| "reducer (Some state) (SetAnswerSelected answerId sel) =
     (let idx = findIndex (\<lambda>answer. answer_id answer = answerId) (answers state)
      in Some (state\<lparr>answers :=
           slice (answers state) 0 (Some idx)
           @ [spread_isSelected (element_at (answers state) idx) sel]
           @ slice (answers state) (idx + 1) None\<rparr>))"
| "reducer (Some state) OtherAction = Some state"

section \<open>Selectors\<close>

datatype Error = Error string

definition selectQuestion :: "AppState \<Rightarrow> Error + Question" where
  "selectQuestion state =
     (case state of None \<Rightarrow> Inl (Error ''question is null'') | Some question \<Rightarrow> Inr question)"

definition selectAnswers :: "AppState \<Rightarrow> Error + Answer list" where
  "selectAnswers state =
     (case selectQuestion state of Inl e \<Rightarrow> Inl e | Inr question \<Rightarrow> Inr (answers question))"

definition selectSelectedAnswers :: "AppState \<Rightarrow> Error + Answer list" where
  "selectSelectedAnswers state =
     (case selectAnswers state of Inl e \<Rightarrow> Inl e | Inr as \<Rightarrow> Inr (filter isSelected as))"

section \<open>The store and the thunks\<close>

text \<open>
  The Redux store holds the current state; \<^verbatim>\<open>store.dispatch(action)\<close> replaces it by
  \<open>reducer state action\<close>. The model also records every action that went through
  \<^verbatim>\<open>dispatch\<close>, oldest first, so that "no action was dispatched" can be stated.
  \<^verbatim>\<open>createStore\<close> runs the reducer once on the undefined state (the default parameter
  makes it \<^verbatim>\<open>null\<close>) with an action of its own.
\<close>

record Store =
  getState :: AppState
  dispatched :: "AppAction list"

definition initStore :: Store where
  "initStore = \<lparr>getState = reducer None OtherAction, dispatched = []\<rparr>"

definition dispatch :: "AppAction \<Rightarrow> Store \<Rightarrow> Store" where
  "dispatch action store =
     store\<lparr>getState := reducer (getState store) action,
           dispatched := dispatched store @ [action]\<rparr>"

text \<open>
  A thunk run by \<^verbatim>\<open>store.dispatch(thunk)\<close> returns normally or throws, and leaves the
  store as its own dispatches made it: the result is \<open>Inr ()\<close> or \<open>Inl error\<close>, beside
  the store.
\<close>

definition selectAnswer :: "Answer \<Rightarrow> Store \<Rightarrow> (Error + unit) \<times> Store" where
  "selectAnswer answer store =
     (case selectQuestion (getState store) of
        Inl e \<Rightarrow> (Inl e, store)
      | Inr question \<Rightarrow>
          (case selectSelectedAnswers (getState store) of
             Inl e \<Rightarrow> (Inl e, store)
           | Inr selectedAnswers \<Rightarrow>
               (let store1 =
                      (case selectedAnswers of
                         [] \<Rightarrow> store
                       | firstSelectedAnswer # rest \<Rightarrow>
                           if question_type question = UCQ
                           then dispatch (setAnswerSelected firstSelectedAnswer False) store
                           else store)
                in (Inr (), dispatch (setAnswerSelected answer True) store1))))"

text \<open>
  \<^verbatim>\<open>QuestionGateway.validate\<close> returns a promise of a boolean: awaited, it yields the
  boolean or throws the promise's rejection. The gateway is the dependency that
  \<^verbatim>\<open>initStore(deps)\<close> hands to every thunk; here it is a parameter of the thunk.
  Nothing else dispatches while the thunk awaits (the store has one client).
\<close>

type_synonym QuestionGateway = "string option list \<Rightarrow> Error + bool"

definition validateQuestion :: "QuestionGateway \<Rightarrow> Store \<Rightarrow> (Error + unit) \<times> Store" where
  "validateQuestion validate store =
     (case selectQuestion (getState store) of
        Inl e \<Rightarrow> (Inl e, store)
      | Inr question \<Rightarrow>
          (case selectSelectedAnswers (getState store) of
             Inl e \<Rightarrow> (Inl e, store)
           | Inr selectedAnswers \<Rightarrow>
               (case validate (map answer_id selectedAnswers) of
                  Inl e \<Rightarrow> (Inl e, store)
                | Inr success \<Rightarrow>
                    if \<not> success then (Inl (Error ''response not ok''), store)
                    else (Inr (), dispatch (setQuestionValidated question True) store))))"

section \<open>The stub server\<close>

text \<open>
  The second source file is an Express application: the JSON body parser as middleware
  for every request, then one route. A request that the body parser passes on goes to
  the route with the parsed body; a request that the body parser refuses ends with the
  status of the parser's error and reaches no handler; a request that no route matches
  is left to the library. The handler prints the parsed body and answers; the model
  returns the printed values beside the response.

  The body parser belongs to the Express library and is a parameter of \<open>app\<close>. Express
  matches a route path without regard to letter case and with or without a trailing
  slash (its defaults; the file changes neither).
\<close>

record 'b Request =
  req_method :: string
  req_path :: string
  req_body :: 'b

record Response =
  statusCode :: nat
  res_body :: string
  ended :: bool

datatype 'b Parsed = Passed 'b | Refused nat

datatype 'b Handled = Responded "'b list" Response | Failed nat | Unrouted

definition fresh_response :: Response where
  "fresh_response = \<lparr>statusCode = 200, res_body = [], ended = False\<rparr>"

definition res_status :: "nat \<Rightarrow> Response \<Rightarrow> Response" where
  "res_status code res = res\<lparr>statusCode := code\<rparr>"

definition res_end :: "Response \<Rightarrow> Response" where
  "res_end res = res\<lparr>ended := True\<rparr>"

definition validate_question_handler :: "'b Request \<Rightarrow> 'b list \<times> Response" where
  "validate_question_handler req = ([req_body req], res_end (res_status 201 fresh_response))"

definition lower_case :: "char \<Rightarrow> char" where
  "lower_case c =
     (case map_of (zip ''ABCDEFGHIJKLMNOPQRSTUVWXYZ'' ''abcdefghijklmnopqrstuvwxyz'') c of
        None \<Rightarrow> c
      | Some l \<Rightarrow> l)"

definition route_matches :: "string \<Rightarrow> string \<Rightarrow> bool" where
  "route_matches route path =
     (map lower_case path = map lower_case route
      \<or> map lower_case path = map lower_case route @ ''/'')"

definition app :: "('r Request \<Rightarrow> 'b Parsed) \<Rightarrow> 'r Request \<Rightarrow> 'b Handled" where
  "app json req =
     (case json req of
        Refused code \<Rightarrow> Failed code
      | Passed parsed \<Rightarrow>
          if req_method req = ''POST'' \<and> route_matches ''/validate-question'' (req_path req)
          then (case validate_question_handler
                   \<lparr>req_method = req_method req, req_path = req_path req, req_body = parsed\<rparr> of
                  (printed, res) \<Rightarrow> Responded printed res)
          else Unrouted)"

text \<open>
  The body parser that the file installs is \<^verbatim>\<open>express.json()\<close> with no options. On a
  request whose content type is JSON and whose payload is a well-formed JSON text within
  the size limit, the parser in its default strict mode accepts an object or an array
  and refuses every other JSON value with status 400. The payload is modelled as the
  JSON value it denotes.
\<close>

datatype json =
    JNull
  | JBool bool
  | JNumber int
  | JString string
  | JArray "json list"
  | JObject "(string \<times> json) list"

fun express_json :: "json Request \<Rightarrow> json Parsed" where
  "express_json req =
     (case req_body req of
        JObject members \<Rightarrow> Passed (JObject members)
      | JArray elements \<Rightarrow> Passed (JArray elements)
      | other \<Rightarrow> Refused 400)"

section \<open>The values of the demonstration run\<close>

text \<open>The two answers and the question that \<^verbatim>\<open>main\<close> builds, and a third answer that is
  not one of the question's.\<close>

definition answer1 :: Answer where
  "answer1 = \<lparr>answer_id = Some ''answer1'', answer_text = Some ''good'',
     isCorrect = Some True, isSelected = False\<rparr>"

definition answer2 :: Answer where
  "answer2 = \<lparr>answer_id = Some ''answer2'', answer_text = Some ''baad'',
     isCorrect = Some False, isSelected = False\<rparr>"

definition answer3 :: Answer where
  "answer3 = \<lparr>answer_id = Some ''answer3'', answer_text = Some ''so so'',
     isCorrect = Some False, isSelected = False\<rparr>"

definition question1 :: Question where
  "question1 = \<lparr>question_id = ''question1'', question_type = UCQ,
     question_text = ''How are you?'', answers = [answer1, answer2], isValidated = False\<rparr>"

text \<open>Two more questions on the same answers: one of type UCQ in which two answers are
  selected, and one of type UCQ in which two answers carry the same id.\<close>

definition question2 :: Question where
  "question2 = question1\<lparr>answers :=
     [answer1\<lparr>isSelected := True\<rparr>, answer2\<lparr>isSelected := True\<rparr>, answer3]\<rparr>"

definition question3 :: Question where
  "question3 = question1\<lparr>answers :=
     [answer1, answer1\<lparr>answer_text := Some ''fine'', isSelected := True\<rparr>, answer2]\<rparr>"

text \<open>A question of type MCQ in which the second answer carries the id of the first;
  nothing is selected.\<close>

definition question4 :: Question where
  "question4 = question1\<lparr>question_type := MCQ, answers :=
     [answer1, answer1\<lparr>answer_text := Some ''fine''\<rparr>, answer2]\<rparr>"

section \<open>Vocabulary of the properties\<close>

text \<open>The position of the first answer that carries a given id (the length of the list
  when there is none): the answer the reducer updates.\<close>

definition first_with_id :: "string option \<Rightarrow> Answer list \<Rightarrow> nat" where
  "first_with_id aid xs = length (takeWhile (\<lambda>x. answer_id x \<noteq> aid) xs)"

text \<open>The list of answers after the reducer has set \<open>isSelected\<close> of the first answer that
  carries an id, and after the deselection step of the thunk \<open>selectAnswer\<close> on a UCQ
  question (when every id involved is carried by an answer).\<close>

definition update_first :: "string option \<Rightarrow> bool \<Rightarrow> Answer list \<Rightarrow> Answer list" where
  "update_first aid v xs =
     xs[first_with_id aid xs := (xs ! first_with_id aid xs)\<lparr>isSelected := v\<rparr>]"

definition deselect_first_selected :: "Answer list \<Rightarrow> Answer list" where
  "deselect_first_selected xs =
     (case filter isSelected xs of
        [] \<Rightarrow> xs
      | f # rest \<Rightarrow> update_first (answer_id f) False xs)"

text \<open>The data model's invariant: in a question of type UCQ at most one answer is
  selected. The ids of a question's answers identify them when they are pairwise
  distinct.\<close>

definition ucq_invariant :: "Question \<Rightarrow> bool" where
  "ucq_invariant q \<longleftrightarrow>
     (question_type q = UCQ \<longrightarrow> length (filter isSelected (answers q)) \<le> 1)"

definition distinct_ids :: "Question \<Rightarrow> bool" where
  "distinct_ids q \<longleftrightarrow> distinct (map answer_id (answers q))"

text \<open>
  The stores a client reaches from a new store when it installs only questions that have
  distinct answer ids and satisfy the invariant, selects answers through the thunk
  \<open>selectAnswer\<close> only, and names only answers of the current question (any answer
  while there is no question); deselecting an answer directly, marking the question
  validated and running the validation are free.
\<close>

inductive reachable :: "Store \<Rightarrow> bool" where
  created: "reachable initStore"
| installed:
    "reachable store \<Longrightarrow> distinct_ids question \<Longrightarrow> ucq_invariant question
     \<Longrightarrow> reachable (dispatch (setQuestion question) store)"
| selected:
    "reachable store
     \<Longrightarrow> \<forall>q. getState store = Some q \<longrightarrow> answer_id answer \<in> answer_id ` set (answers q)
     \<Longrightarrow> reachable (snd (selectAnswer answer store))"
| deselected:
    "reachable store
     \<Longrightarrow> \<forall>q. getState store = Some q \<longrightarrow> answer_id answer \<in> answer_id ` set (answers q)
     \<Longrightarrow> reachable (dispatch (setAnswerSelected answer False) store)"
| marked:
    "reachable store \<Longrightarrow> reachable (dispatch (setQuestionValidated question validated) store)"
| validated:
    "reachable store \<Longrightarrow> reachable (snd (validateQuestion validate store))"

section \<open>Array operations\<close>

lemma findIndexFrom_eq:
  "findIndexFrom P xs k =
     (if \<exists>x\<in>set xs. P x then k + int (length (takeWhile (\<lambda>x. \<not> P x) xs)) else - 1)"
  by (induction xs arbitrary: k) auto

lemma findIndex_found:
  "\<exists>x\<in>set xs. P x \<Longrightarrow> findIndex P xs = int (length (takeWhile (\<lambda>x. \<not> P x) xs))"
  by (simp add: findIndex_def findIndexFrom_eq)

lemma findIndex_missing:
  "\<forall>x\<in>set xs. \<not> P x \<Longrightarrow> findIndex P xs = - 1"
  by (simp add: findIndex_def findIndexFrom_eq)

lemma slice_prefix: "slice xs 0 (Some (int i)) = take i xs"
  by (simp add: slice_def Let_def min_def)

lemma slice_suffix: "slice xs (int i) None = drop i xs"
  by (simp add: slice_def Let_def min_def)

lemma slice_suffix_Suc: "slice xs (int i + 1) None = drop (Suc i) xs"
  using slice_suffix [of xs "Suc i"] by (simp add: add.commute)

lemma slice_minus_one: "slice xs 0 (Some (- 1)) = butlast xs"
  by (simp add: slice_def Let_def butlast_conv_take max_def nat_diff_distrib')

lemma slice_zero: "slice xs 0 None = xs"
  by (simp add: slice_def Let_def)

lemma takeWhile_stops: "\<exists>x\<in>set xs. \<not> P x \<Longrightarrow> length (takeWhile P xs) < length xs"
  by (induction xs) auto

lemma first_with_id_less:
  "aid \<in> answer_id ` set xs \<Longrightarrow> first_with_id aid xs < length xs"
  unfolding first_with_id_def by (rule takeWhile_stops) auto

section \<open>The reducer on \<open>setAnswerSelected\<close>\<close>

text \<open>When an answer carries the id, the first such answer is replaced in place.\<close>

lemma reducer_known_id:
  assumes "aid \<in> answer_id ` set (answers q)"
  shows "reducer (Some q) (SetAnswerSelected aid v) =
     Some (q\<lparr>answers := (answers q)[first_with_id aid (answers q) :=
                 (answers q ! first_with_id aid (answers q))\<lparr>isSelected := v\<rparr>]\<rparr>)"
proof -
  let ?xs = "answers q" and ?i = "first_with_id aid (answers q)"
  have found: "\<exists>x\<in>set ?xs. answer_id x = aid" using assms by auto
  have idx: "findIndex (\<lambda>a. answer_id a = aid) ?xs = int ?i"
    using findIndex_found [OF found] by (simp add: first_with_id_def)
  have less: "?i < length ?xs" using assms by (rule first_with_id_less)
  have "slice ?xs 0 (Some (int ?i)) @ [spread_isSelected (element_at ?xs (int ?i)) v]
          @ slice ?xs (int ?i + 1) None = ?xs[?i := (?xs ! ?i)\<lparr>isSelected := v\<rparr>]"
    using less
    by (simp add: slice_prefix slice_suffix_Suc element_at_def spread_isSelected_def
        upd_conv_take_nth_drop)
  then show ?thesis by (simp add: idx Let_def)
qed

text \<open>When no answer carries the id, \<^verbatim>\<open>findIndex\<close> is \<open>-1\<close>: \<^verbatim>\<open>slice(0, -1)\<close> is the
  list without its last element, \<^verbatim>\<open>answers[-1]\<close> is undefined and \<^verbatim>\<open>slice(0)\<close> is the
  whole list.\<close>

lemma reducer_unknown_id:
  assumes "aid \<notin> answer_id ` set (answers q)"
  shows "reducer (Some q) (SetAnswerSelected aid v) =
     Some (q\<lparr>answers := butlast (answers q)
        @ [\<lparr>answer_id = None, answer_text = None, isCorrect = None, isSelected = v\<rparr>]
        @ answers q\<rparr>)"
proof -
  have "findIndex (\<lambda>a. answer_id a = aid) (answers q) = - 1"
    using assms by (intro findIndex_missing) auto
  then show ?thesis
    by (simp add: Let_def slice_minus_one slice_zero element_at_def spread_isSelected_def)
qed

lemma reducer_unknown_id_grows:
  assumes "aid \<notin> answer_id ` set (answers q)"
  shows "\<exists>q'. reducer (Some q) (SetAnswerSelected aid v) = Some q'
           \<and> length (answers q) < length (answers q')"
  using reducer_unknown_id [OF assms] by simp
section \<open>Evaluating concrete runs\<close>

lemmas run_defs =
  selectAnswer_def validateQuestion_def selectQuestion_def selectAnswers_def
  selectSelectedAnswers_def dispatch_def setQuestion_def setAnswerSelected_def
  setQuestionValidated_def initStore_def findIndex_def slice_def element_at_def
  spread_isSelected_def

lemmas value_defs = question1_def answer1_def answer2_def answer3_def

section \<open>The reducer on \<open>setQuestionValidated\<close>\<close>

text \<open>
  Claim C6. For every non-null state, a \<open>setQuestionValidated\<close> action changes nothing
  but the field \<open>isValidated\<close>: the list of answers (every answer with all its fields, in
  the same order) and the question's id, type and text are those of the state before.
\<close>

theorem setQuestionValidated_frame:
  "\<exists>q'. reducer (Some q) (SetQuestionValidated questionId validated) = Some q'
     \<and> answers q' = answers q
     \<and> question_id q' = question_id q
     \<and> question_type q' = question_type q
     \<and> question_text q' = question_text q"
  by simp


section \<open>The reducer on an id that no answer carries\<close>

text \<open>On an id that no answer carries the reducer never returns the state it was given:
  the list of answers grows.\<close>

lemma reducer_unknown_id_changes_state:
  assumes "aid \<notin> answer_id ` set (answers q)"
  shows "reducer (Some q) (SetAnswerSelected aid v) \<noteq> Some q"
proof
  assume "reducer (Some q) (SetAnswerSelected aid v) = Some q"
  moreover from reducer_unknown_id_grows [OF assms, of v]
  obtain q' where "reducer (Some q) (SetAnswerSelected aid v) = Some q'"
    and "length (answers q) < length (answers q')"
    by blast
  ultimately show False by simp
qed

text \<open>
  Claim C3 says that \<open>setAnswerSelected\<close> with an id that matches no answer returns the
  state unchanged. The reducer does not: on the question of the demonstration run, which
  is well typed, and the id of \<open>answer3\<close> it returns four answers, the first answer, an
  answer that has only the field \<open>isSelected\<close>, and the two answers again; the result is
  not a well-typed question.
\<close>

theorem setAnswerSelected_unknown_id_corrupts_state:
  "typed_question question1 \<and> typed_answer answer3
   \<and> answer_id answer3 \<notin> answer_id ` set (answers question1)
   \<and> reducer (Some question1) (setAnswerSelected answer3 True) =
       Some (question1\<lparr>answers :=
         [answer1,
          \<lparr>answer_id = None, answer_text = None, isCorrect = None, isSelected = True\<rparr>,
          answer1, answer2]\<rparr>)
   \<and> reducer (Some question1) (setAnswerSelected answer3 True) \<noteq> Some question1
   \<and> \<not> typed_question (question1\<lparr>answers :=
         [answer1,
          \<lparr>answer_id = None, answer_text = None, isCorrect = None, isSelected = True\<rparr>,
          answer1, answer2]\<rparr>)"
proof -
  have typed: "typed_question question1 \<and> typed_answer answer3"
    by (simp add: typed_question_def typed_answer_def value_defs)
  have unknown: "answer_id answer3 \<notin> answer_id ` set (answers question1)"
    by (simp add: value_defs)
  have result: "reducer (Some question1) (setAnswerSelected answer3 True) =
     Some (question1\<lparr>answers :=
       [answer1,
        \<lparr>answer_id = None, answer_text = None, isCorrect = None, isSelected = True\<rparr>,
        answer1, answer2]\<rparr>)"
    using reducer_unknown_id [OF unknown, of True]
    by (simp add: setAnswerSelected_def question1_def)
  have changed: "reducer (Some question1) (setAnswerSelected answer3 True) \<noteq> Some question1"
    using reducer_unknown_id_changes_state [OF unknown, of True]
    by (simp add: setAnswerSelected_def)
  have untyped: "\<not> typed_question (question1\<lparr>answers :=
       [answer1,
        \<lparr>answer_id = None, answer_text = None, isCorrect = None, isSelected = True\<rparr>,
        answer1, answer2]\<rparr>)"
    by (simp add: typed_question_def typed_answer_def)
  from typed unknown result changed untyped show ?thesis by blast
qed

section \<open>The thunks on an empty store\<close>

text \<open>
  Claim C9. When the state is null, \<open>selectAnswer\<close> and \<open>validateQuestion\<close> throw the
  error "question is null" and leave the store as it was: the state is still null and
  no action has been dispatched.
\<close>

theorem thunks_throw_on_null_state:
  assumes "getState store = None"
  shows "selectAnswer answer store = (Inl (Error ''question is null''), store)
     \<and> validateQuestion validate store = (Inl (Error ''question is null''), store)"
  using assms by (simp add: selectAnswer_def validateQuestion_def selectQuestion_def)

theorem thunks_throw_on_null_state_witness:
  "getState initStore = None \<and> dispatched initStore = []
   \<and> selectAnswer answer1 initStore = (Inl (Error ''question is null''), initStore)
   \<and> validateQuestion (\<lambda>ids. Inr True) initStore
       = (Inl (Error ''question is null''), initStore)"
proof -
  have null: "getState initStore = None" by (simp add: initStore_def)
  show ?thesis
    using null thunks_throw_on_null_state [OF null, of answer1 "\<lambda>ids. Inr True"]
    by (simp add: initStore_def)
qed

section \<open>The validation workflow\<close>

text \<open>
  Claim C5. On a store that holds a question, \<open>validateQuestion\<close> gives the gateway the
  ids of the answers that are selected, in their order. When the gateway answers true,
  the thunk dispatches \<open>setQuestionValidated\<close> for the question, exactly that one action,
  and the state is the question with \<open>isValidated\<close> true. When the gateway answers false,
  the thunk throws the error "response not ok" and the store is as before: no action
  dispatched, the state unchanged.
\<close>

theorem validateQuestion_workflow:
  assumes "getState store = Some q"
  shows "(validate (map answer_id (filter isSelected (answers q))) = Inr True \<longrightarrow>
            validateQuestion validate store
              = (Inr (), dispatch (setQuestionValidated q True) store)
            \<and> getState (snd (validateQuestion validate store)) = Some (q\<lparr>isValidated := True\<rparr>)
            \<and> dispatched (snd (validateQuestion validate store))
                = dispatched store @ [SetQuestionValidated (question_id q) True])
     \<and> (validate (map answer_id (filter isSelected (answers q))) = Inr False \<longrightarrow>
            validateQuestion validate store = (Inl (Error ''response not ok''), store))"
  using assms
  by (simp add: validateQuestion_def selectQuestion_def selectAnswers_def
      selectSelectedAnswers_def dispatch_def setQuestionValidated_def)

theorem validateQuestion_workflow_witness:
  "getState (dispatch (setQuestion (question1\<lparr>answers := [answer1, answer2\<lparr>isSelected := True\<rparr>]\<rparr>)) initStore)
     = Some (question1\<lparr>answers := [answer1, answer2\<lparr>isSelected := True\<rparr>]\<rparr>)
   \<and> getState (snd (validateQuestion (\<lambda>ids. Inr (ids = [Some ''answer2'']))
        (dispatch (setQuestion (question1\<lparr>answers := [answer1, answer2\<lparr>isSelected := True\<rparr>]\<rparr>)) initStore)))
     = Some (question1\<lparr>answers := [answer1, answer2\<lparr>isSelected := True\<rparr>], isValidated := True\<rparr>)
   \<and> validateQuestion (\<lambda>ids. Inr (ids \<noteq> [Some ''answer2'']))
        (dispatch (setQuestion (question1\<lparr>answers := [answer1, answer2\<lparr>isSelected := True\<rparr>]\<rparr>)) initStore)
     = (Inl (Error ''response not ok''),
        dispatch (setQuestion (question1\<lparr>answers := [answer1, answer2\<lparr>isSelected := True\<rparr>]\<rparr>)) initStore)"
proof -
  let ?q = "question1\<lparr>answers := [answer1, answer2\<lparr>isSelected := True\<rparr>]\<rparr>"
  let ?store = "dispatch (setQuestion ?q) initStore"
  let ?ids = "map answer_id (filter isSelected (answers ?q))"
  have holds: "getState ?store = Some ?q"
    by (simp add: dispatch_def setQuestion_def)
  have accepted: "Inr (?ids = [Some ''answer2'']) = (Inr True :: Error + bool)"
    by (simp add: answer1_def answer2_def)
  have refused: "Inr (?ids \<noteq> [Some ''answer2'']) = (Inr False :: Error + bool)"
    by (simp add: answer1_def answer2_def)
  have "getState (snd (validateQuestion (\<lambda>ids. Inr (ids = [Some ''answer2''])) ?store))
      = Some (?q\<lparr>isValidated := True\<rparr>)"
    using validateQuestion_workflow [OF holds, of "\<lambda>ids. Inr (ids = [Some ''answer2''])"]
      accepted by blast
  moreover have "validateQuestion (\<lambda>ids. Inr (ids \<noteq> [Some ''answer2''])) ?store
      = (Inl (Error ''response not ok''), ?store)"
    using validateQuestion_workflow [OF holds, of "\<lambda>ids. Inr (ids \<noteq> [Some ''answer2''])"]
      refused by blast
  ultimately show ?thesis using holds by blast
qed

section \<open>The stub endpoint\<close>

text \<open>The body parser with its default options passes on objects and arrays, unchanged,
  and nothing else.\<close>

lemma express_json_passed:
  "express_json req = Passed v \<longleftrightarrow>
     req_body req = v \<and> ((\<exists>members. v = JObject members) \<or> (\<exists>elements. v = JArray elements))"
  by (cases "req_body req") auto

text \<open>
  Claim C8, amended. Every POST request to \<open>/validate-question\<close> that the JSON body
  parser passes on, whatever the parsed payload is, is answered with status 201 and an
  empty body (the handler prints the parsed payload and reads nothing from it).
\<close>

theorem validate_question_always_201:
  assumes "req_method req = ''POST''"
    and "route_matches ''/validate-question'' (req_path req)"
    and "json req = Passed parsed"
  shows "app json req
     = Responded [parsed] \<lparr>statusCode = 201, res_body = [], ended = True\<rparr>"
  using assms
  by (simp add: app_def validate_question_handler_def res_end_def res_status_def
      fresh_response_def)

theorem validate_question_always_201_witness:
  "app express_json
     \<lparr>req_method = ''POST'', req_path = ''/validate-question'',
      req_body = JObject [(''answersIds'', JArray [JString ''answer2''])]\<rparr>
   = Responded [JObject [(''answersIds'', JArray [JString ''answer2''])]]
       \<lparr>statusCode = 201, res_body = [], ended = True\<rparr>"
proof -
  let ?req = "\<lparr>req_method = ''POST'', req_path = ''/validate-question'',
      req_body = JObject [(''answersIds'', JArray [JString ''answer2''])]\<rparr>"
  have post: "req_method ?req = ''POST''" by simp
  have path: "route_matches ''/validate-question'' (req_path ?req)"
    by (simp add: route_matches_def lower_case_def)
  have passed: "express_json ?req = Passed (JObject [(''answersIds'', JArray [JString ''answer2''])])"
    by simp
  show ?thesis
    using validate_question_always_201 [where json = express_json, OF post path passed] .
qed

text \<open>
  Claim C8 as stated fails: the payload \<open>123\<close> is a JSON payload, the body parser that the
  server installs refuses it, and the request ends with status 400 without reaching the
  handler.
\<close>

theorem validate_question_always_201_counterexample:
  "app express_json
     \<lparr>req_method = ''POST'', req_path = ''/validate-question'', req_body = JNumber 123\<rparr>
   = Failed 400"
  by (simp add: app_def)

section \<open>Selecting an answer\<close>

lemma getState_dispatch: "getState (dispatch action store) = reducer (getState store) action"
  by (simp add: dispatch_def)

lemma selectAnswer_on_question:
  assumes "getState store = Some q"
  shows "selectAnswer b store =
    (Inr (), dispatch (SetAnswerSelected (answer_id b) True)
       (case filter isSelected (answers q) of
          [] \<Rightarrow> store
        | f # rest \<Rightarrow>
            if question_type q = UCQ then dispatch (SetAnswerSelected (answer_id f) False) store
            else store))"
  using assms
  by (simp add: selectAnswer_def selectQuestion_def selectAnswers_def selectSelectedAnswers_def
      setAnswerSelected_def Let_def split: list.splits)

lemma first_with_id_Nil: "first_with_id aid [] = 0"
  by (simp add: first_with_id_def)

lemma first_with_id_Cons:
  "first_with_id aid (x # xs) = (if answer_id x = aid then 0 else Suc (first_with_id aid xs))"
  by (simp add: first_with_id_def)

lemma first_with_id_carries:
  "aid \<in> answer_id ` set xs \<Longrightarrow> answer_id (xs ! first_with_id aid xs) = aid"
  by (induction xs) (auto simp: first_with_id_Cons)

lemma first_with_id_first:
  "j < first_with_id aid xs \<Longrightarrow> answer_id (xs ! j) \<noteq> aid"
proof (induction xs arbitrary: j)
  case Nil
  then show ?case by (simp add: first_with_id_Nil)
next
  case (Cons x xs)
  have differs: "answer_id x \<noteq> aid" and bound: "j < Suc (first_with_id aid xs)"
    using Cons.prems by (simp_all add: first_with_id_Cons split: if_splits)
  show ?case
  proof (cases j)
    case 0
    then show ?thesis using differs by simp
  next
    case (Suc k)
    then have "k < first_with_id aid xs" using bound by simp
    then have "answer_id (xs ! k) \<noteq> aid" by (rule Cons.IH)
    then show ?thesis using Suc by simp
  qed
qed

lemma first_with_id_le:
  assumes "p < length xs"
  shows "first_with_id (answer_id (xs ! p)) xs \<le> p"
proof (rule ccontr)
  assume "\<not> first_with_id (answer_id (xs ! p)) xs \<le> p"
  then have "p < first_with_id (answer_id (xs ! p)) xs" by simp
  then have "answer_id (xs ! p) \<noteq> answer_id (xs ! p)" by (rule first_with_id_first)
  then show False by simp
qed

lemma first_with_id_ids:
  "first_with_id aid xs = length (takeWhile (\<lambda>i. i \<noteq> aid) (map answer_id xs))"
  by (simp add: first_with_id_def takeWhile_map comp_def)

lemma first_with_id_map_ids:
  "map answer_id ys = map answer_id xs \<Longrightarrow> first_with_id aid ys = first_with_id aid xs"
  by (simp only: first_with_id_ids)

lemma map_ids_select: "map answer_id (xs[i := (xs ! i)\<lparr>isSelected := v\<rparr>]) = map answer_id xs"
proof (cases "i < length xs")
  case True
  then show ?thesis by (simp add: map_update list_update_same_conv)
next
  case False
  then show ?thesis by (simp add: list_update_beyond)
qed

lemma find_first_with_id:
  assumes "List.find (\<lambda>x. answer_id x = aid) xs = Some b"
  shows "aid \<in> answer_id ` set xs \<and> xs ! first_with_id aid xs = b \<and> answer_id b = aid"
  using assms
proof (induction xs)
  case Nil
  then show ?case by simp
next
  case (Cons x xs)
  show ?case
  proof (cases "answer_id x = aid")
    case True
    then show ?thesis using Cons.prems by (simp add: first_with_id_Cons)
  next
    case False
    then have "List.find (\<lambda>x. answer_id x = aid) xs = Some b" using Cons.prems by simp
    then have "aid \<in> answer_id ` set xs \<and> xs ! first_with_id aid xs = b \<and> answer_id b = aid"
      by (rule Cons.IH)
    then show ?thesis using False by (simp add: first_with_id_Cons)
  qed
qed

text \<open>When the ids are pairwise distinct, every answer of the question is the first
  answer that carries its id.\<close>

lemma find_distinct_ids:
  assumes "distinct (map answer_id xs)" and "b \<in> set xs"
  shows "List.find (\<lambda>x. answer_id x = answer_id b) xs = Some b"
  using assms
proof (induction xs)
  case Nil
  then show ?case by simp
next
  case (Cons x xs)
  show ?case
  proof (cases "x = b")
    case True
    then show ?thesis by simp
  next
    case False
    then have mem: "b \<in> set xs" using Cons.prems(2) by simp
    then have "answer_id b \<in> answer_id ` set xs" by simp
    then have "answer_id x \<noteq> answer_id b" using Cons.prems(1) by auto
    then show ?thesis using Cons.IH mem Cons.prems(1) by simp
  qed
qed

text \<open>
  Claim C4, amended. On a store that holds a question of type MCQ, \<open>selectAnswer b\<close> for
  an answer \<open>b\<close> of the question that is the first answer carrying its id (every answer
  is, when the ids are pairwise distinct) returns normally and yields the question in
  which \<open>b\<close> is selected at its position and every other answer is as before; so every
  answer that was selected is still selected.
\<close>

theorem selectAnswer_MCQ_additive:
  assumes "getState store = Some q" and "question_type q = MCQ"
    and "List.find (\<lambda>x. answer_id x = answer_id b) (answers q) = Some b"
  shows "\<exists>store' q' i. selectAnswer b store = (Inr (), store') \<and> getState store' = Some q'
     \<and> i < length (answers q) \<and> answers q ! i = b
     \<and> answers q' = (answers q)[i := b\<lparr>isSelected := True\<rparr>]
     \<and> b\<lparr>isSelected := True\<rparr> \<in> set (answers q')
     \<and> (\<forall>j < length (answers q). isSelected (answers q ! j) \<longrightarrow> isSelected (answers q' ! j))"
proof -
  let ?xs = "answers q" and ?i = "first_with_id (answer_id b) (answers q)"
  let ?ys = "?xs[?i := b\<lparr>isSelected := True\<rparr>]"
  let ?q' = "q\<lparr>answers := ?ys\<rparr>"
  have known: "answer_id b \<in> answer_id ` set ?xs" and at: "?xs ! ?i = b"
    using find_first_with_id [OF assms(3)] by simp_all
  have less: "?i < length ?xs" using known by (rule first_with_id_less)
  have run: "selectAnswer b store = (Inr (), dispatch (SetAnswerSelected (answer_id b) True) store)"
    using selectAnswer_on_question [OF assms(1), of b] assms(2) by (simp split: list.splits)
  have state: "getState (dispatch (SetAnswerSelected (answer_id b) True) store) = Some ?q'"
    using reducer_known_id [OF known, of True] assms(1) at by (simp add: getState_dispatch)
  have ans: "answers ?q' = ?ys" by simp
  have member: "b\<lparr>isSelected := True\<rparr> \<in> set ?ys"
    using less set_update_memI [of ?i ?xs "b\<lparr>isSelected := True\<rparr>"] by simp
  have kept: "\<forall>j < length ?xs. isSelected (?xs ! j) \<longrightarrow> isSelected (?ys ! j)"
    using less by (auto simp: nth_list_update)
  show ?thesis
  proof (intro exI conjI)
    show "selectAnswer b store = (Inr (), dispatch (SetAnswerSelected (answer_id b) True) store)"
      by (rule run)
    show "getState (dispatch (SetAnswerSelected (answer_id b) True) store) = Some ?q'"
      by (rule state)
    show "?i < length ?xs" by (rule less)
    show "?xs ! ?i = b" by (rule at)
    show "answers ?q' = ?ys" by (rule ans)
    show "b\<lparr>isSelected := True\<rparr> \<in> set (answers ?q')" unfolding ans by (rule member)
    show "\<forall>j < length ?xs. isSelected (?xs ! j) \<longrightarrow> isSelected (answers ?q' ! j)"
      unfolding ans by (rule kept)
  qed
qed

theorem selectAnswer_MCQ_additive_witness:
  "\<exists>store' q'.
     selectAnswer answer2
       (dispatch (setQuestion (question1\<lparr>question_type := MCQ,
          answers := [answer1\<lparr>isSelected := True\<rparr>, answer2]\<rparr>)) initStore) = (Inr (), store')
     \<and> getState store' = Some q'
     \<and> answers q' = [answer1\<lparr>isSelected := True\<rparr>, answer2\<lparr>isSelected := True\<rparr>]"
proof -
  let ?q = "question1\<lparr>question_type := MCQ, answers := [answer1\<lparr>isSelected := True\<rparr>, answer2]\<rparr>"
  let ?store = "dispatch (setQuestion ?q) initStore"
  have holds: "getState ?store = Some ?q" by (simp add: dispatch_def setQuestion_def)
  have mcq: "question_type ?q = MCQ" by simp
  have first: "List.find (\<lambda>x. answer_id x = answer_id answer2) (answers ?q) = Some answer2"
    by (simp add: answer1_def answer2_def)
  from selectAnswer_MCQ_additive [OF holds mcq first]
  obtain store' q' i where run: "selectAnswer answer2 ?store = (Inr (), store')"
    and state: "getState store' = Some q'"
    and less: "i < length (answers ?q)" and at: "answers ?q ! i = answer2"
    and result: "answers q' = (answers ?q)[i := answer2\<lparr>isSelected := True\<rparr>]"
    by blast
  have "i = 1"
  proof (cases i)
    case 0
    then have "answer1\<lparr>isSelected := True\<rparr> = answer2" using at by simp
    then show ?thesis by (simp add: answer1_def answer2_def)
  next
    case (Suc k)
    then show ?thesis using less by simp
  qed
  then have "answers q' = [answer1\<lparr>isSelected := True\<rparr>, answer2\<lparr>isSelected := True\<rparr>]"
    using result by simp
  with run state show ?thesis by blast
qed

text \<open>
  Claim C4 as stated fails when the answer shares its id with an earlier answer. In
  \<open>question4\<close>, of type MCQ, the second answer carries the id of the first:
  \<open>selectAnswer\<close> of the second answer selects the first, and the second is not selected.
\<close>

theorem selectAnswer_MCQ_additive_counterexample:
  "getState (dispatch (setQuestion question4) initStore) = Some question4
   \<and> question_type question4 = MCQ
   \<and> answer1\<lparr>answer_text := Some ''fine''\<rparr> \<in> set (answers question4)
   \<and> selectAnswer (answer1\<lparr>answer_text := Some ''fine''\<rparr>)
        (dispatch (setQuestion question4) initStore)
       = (Inr (),
          \<lparr>getState = Some (question4\<lparr>answers :=
              [answer1\<lparr>isSelected := True\<rparr>, answer1\<lparr>answer_text := Some ''fine''\<rparr>, answer2]\<rparr>),
           dispatched = [SetQuestion question4, SetAnswerSelected (Some ''answer1'') True]\<rparr>)
   \<and> \<not> isSelected (answer1\<lparr>answer_text := Some ''fine''\<rparr>)
   \<and> answer1\<lparr>answer_text := Some ''fine'', isSelected := True\<rparr>
       \<notin> set [answer1\<lparr>isSelected := True\<rparr>, answer1\<lparr>answer_text := Some ''fine''\<rparr>, answer2]"
  by (simp add: run_defs value_defs question4_def)

section \<open>The reducer on questions whose answers have distinct ids\<close>

lemma update_first_with_id:
  assumes "distinct (map answer_id xs)" and "aid \<in> answer_id ` set xs"
  shows "xs[first_with_id aid xs := (xs ! first_with_id aid xs)\<lparr>isSelected := v\<rparr>]
     = map (\<lambda>x. if answer_id x = aid then x\<lparr>isSelected := v\<rparr> else x) xs"
  using assms
proof (induction xs)
  case Nil
  then show ?case by simp
next
  case (Cons x xs)
  show ?case
  proof (cases "answer_id x = aid")
    case True
    then have "aid \<notin> answer_id ` set xs" using Cons.prems(1) by auto
    then have "map (\<lambda>x. if answer_id x = aid then x\<lparr>isSelected := v\<rparr> else x) xs = xs"
      by (intro map_idI) auto
    then show ?thesis using True by (simp add: first_with_id_Cons)
  next
    case False
    then have "aid \<in> answer_id ` set xs" using Cons.prems(2) by auto
    then show ?thesis using False Cons.IH Cons.prems(1) by (simp add: first_with_id_Cons)
  qed
qed

lemma reducer_distinct_ids:
  assumes "distinct (map answer_id (answers q))" and "aid \<in> answer_id ` set (answers q)"
  shows "reducer (Some q) (SetAnswerSelected aid v) =
     Some (q\<lparr>answers := map (\<lambda>x. if answer_id x = aid then x\<lparr>isSelected := v\<rparr> else x) (answers q)\<rparr>)"
  using reducer_known_id [OF assms(2), of v] update_first_with_id [OF assms, of v] by simp

lemma map_ids_mark:
  "map answer_id (map (\<lambda>x. if answer_id x = aid then x\<lparr>isSelected := v\<rparr> else x) xs)
     = map answer_id xs"
  by (induction xs) simp_all

lemma ids_mark:
  "answer_id ` set (map (\<lambda>x. if answer_id x = aid then x\<lparr>isSelected := v\<rparr> else x) xs)
     = answer_id ` set xs"
proof -
  have "set (map answer_id (map (\<lambda>x. if answer_id x = aid then x\<lparr>isSelected := v\<rparr> else x) xs))
      = set (map answer_id xs)"
    by (simp only: map_ids_mark)
  then show ?thesis by (simp only: set_map)
qed

lemma first_selected_member:
  assumes "filter isSelected xs = a # rest"
  shows "a \<in> set xs \<and> isSelected a"
proof -
  have "a \<in> set (filter isSelected xs)" using assms by simp
  then show ?thesis by simp
qed

text \<open>
  Claim C1, amended. On a store that holds a UCQ question whose answers have pairwise
  distinct ids and whose first selected answer is \<open>a\<close> (in particular when \<open>a\<close> is the only
  selected answer), \<open>selectAnswer b\<close> for an answer \<open>b\<close> of the question other than \<open>a\<close>
  returns normally and yields the question in which \<open>a\<close> is not selected, \<open>b\<close> is selected
  and every other answer is as before.
\<close>

theorem selectAnswer_UCQ_exclusive:
  assumes "getState store = Some q" and "question_type q = UCQ"
    and "distinct (map answer_id (answers q))"
    and "filter isSelected (answers q) = a # rest"
    and "b \<in> set (answers q)" and "b \<noteq> a"
  shows "\<exists>store' q'. selectAnswer b store = (Inr (), store') \<and> getState store' = Some q'
     \<and> answers q' = map (\<lambda>x. if x = a then a\<lparr>isSelected := False\<rparr>
                              else if x = b then b\<lparr>isSelected := True\<rparr> else x) (answers q)
     \<and> a\<lparr>isSelected := False\<rparr> \<in> set (answers q')
     \<and> b\<lparr>isSelected := True\<rparr> \<in> set (answers q')
     \<and> (\<forall>x \<in> set (answers q'). answer_id x = answer_id a \<longrightarrow> \<not> isSelected x)
     \<and> (\<forall>x \<in> set (answers q'). answer_id x = answer_id b \<longrightarrow> isSelected x)"
proof -
  let ?xs = "answers q"
  let ?off = "\<lambda>x. if answer_id x = answer_id a then x\<lparr>isSelected := False\<rparr> else x"
  let ?on = "\<lambda>x. if answer_id x = answer_id b then x\<lparr>isSelected := True\<rparr> else x"
  let ?both = "\<lambda>x. if x = a then a\<lparr>isSelected := False\<rparr>
                    else if x = b then b\<lparr>isSelected := True\<rparr> else x"
  let ?store1 = "dispatch (SetAnswerSelected (answer_id a) False) store"
  let ?store2 = "dispatch (SetAnswerSelected (answer_id b) True) ?store1"
  let ?q1 = "q\<lparr>answers := map ?off ?xs\<rparr>"
  let ?q2 = "q\<lparr>answers := map ?both ?xs\<rparr>"
  have a_mem: "a \<in> set ?xs" using first_selected_member [OF assms(4)] by simp
  have inj: "inj_on answer_id (set ?xs)" using assms(3) by (simp add: distinct_map)
  have same_a: "answer_id x = answer_id a \<longleftrightarrow> x = a" if "x \<in> set ?xs" for x
    using inj that a_mem by (auto dest: inj_onD)
  have same_b: "answer_id x = answer_id b \<longleftrightarrow> x = b" if "x \<in> set ?xs" for x
    using inj that assms(5) by (auto dest: inj_onD)
  have ids: "answer_id a \<noteq> answer_id b" using same_a [OF assms(5)] assms(6) by auto
  have run: "selectAnswer b store = (Inr (), ?store2)"
    using selectAnswer_on_question [OF assms(1), of b] assms(2,4) by simp
  have state1: "getState ?store1 = Some ?q1"
    using reducer_distinct_ids [OF assms(3), of "answer_id a" False] a_mem assms(1)
    by (simp add: getState_dispatch)
  have ans1: "answers ?q1 = map ?off ?xs" by simp
  have distinct1: "distinct (map answer_id (answers ?q1))"
    unfolding ans1 map_ids_mark by (rule assms(3))
  have known1: "answer_id b \<in> answer_id ` set (answers ?q1)"
    unfolding ans1 ids_mark using assms(5) by (rule imageI)
  have composed: "map ?on (map ?off ?xs) = map ?both ?xs"
    unfolding map_map
  proof (rule map_cong [OF refl])
    fix x assume "x \<in> set ?xs"
    then show "(?on \<circ> ?off) x = ?both x"
      using same_a [of x] same_b [of x] ids by auto
  qed
  have state2: "getState ?store2 = Some ?q2"
    using reducer_distinct_ids [OF distinct1 known1, of True] state1 composed
    by (simp add: getState_dispatch)
  have ans: "answers ?q2 = map ?both ?xs" by simp
  have a_off: "a\<lparr>isSelected := False\<rparr> \<in> set (map ?both ?xs)"
  proof -
    have "?both a \<in> ?both ` set ?xs" using a_mem by (rule imageI)
    then show ?thesis by simp
  qed
  have b_on: "b\<lparr>isSelected := True\<rparr> \<in> set (map ?both ?xs)"
  proof -
    have "?both b \<in> ?both ` set ?xs" using assms(5) by (rule imageI)
    then show ?thesis using assms(6) by simp
  qed
  have none_a: "\<forall>x \<in> set (map ?both ?xs). answer_id x = answer_id a \<longrightarrow> \<not> isSelected x"
    using same_a ids by auto
  have all_b: "\<forall>x \<in> set (map ?both ?xs). answer_id x = answer_id b \<longrightarrow> isSelected x"
    using same_b ids by auto
  show ?thesis
  proof (intro exI conjI)
    show "selectAnswer b store = (Inr (), ?store2)" by (rule run)
    show "getState ?store2 = Some ?q2" by (rule state2)
    show "answers ?q2 = map ?both ?xs" by (rule ans)
    show "a\<lparr>isSelected := False\<rparr> \<in> set (answers ?q2)" unfolding ans by (rule a_off)
    show "b\<lparr>isSelected := True\<rparr> \<in> set (answers ?q2)" unfolding ans by (rule b_on)
    show "\<forall>x \<in> set (answers ?q2). answer_id x = answer_id a \<longrightarrow> \<not> isSelected x"
      unfolding ans by (rule none_a)
    show "\<forall>x \<in> set (answers ?q2). answer_id x = answer_id b \<longrightarrow> isSelected x"
      unfolding ans by (rule all_b)
  qed
qed

theorem selectAnswer_UCQ_exclusive_witness:
  "\<exists>store' q'.
     selectAnswer answer2
       (dispatch (setQuestion (question1\<lparr>answers := [answer1\<lparr>isSelected := True\<rparr>, answer2]\<rparr>))
          initStore) = (Inr (), store')
     \<and> getState store' = Some q'
     \<and> answers q' = [answer1, answer2\<lparr>isSelected := True\<rparr>]"
proof -
  let ?a = "answer1\<lparr>isSelected := True\<rparr>"
  let ?q = "question1\<lparr>answers := [?a, answer2]\<rparr>"
  let ?store = "dispatch (setQuestion ?q) initStore"
  have holds: "getState ?store = Some ?q" by (simp add: dispatch_def setQuestion_def)
  have ucq: "question_type ?q = UCQ" by (simp add: question1_def)
  have ids: "distinct (map answer_id (answers ?q))" by (simp add: answer1_def answer2_def)
  have first: "filter isSelected (answers ?q) = ?a # []" by (simp add: answer2_def)
  have mem: "answer2 \<in> set (answers ?q)" by simp
  have other: "answer2 \<noteq> ?a" by (simp add: answer1_def answer2_def)
  have off: "?a\<lparr>isSelected := False\<rparr> = answer1" by (simp add: answer1_def)
  from selectAnswer_UCQ_exclusive [OF holds ucq ids first mem other]
  obtain store' q' where run: "selectAnswer answer2 ?store = (Inr (), store')"
    and state: "getState store' = Some q'"
    and result: "answers q' = map (\<lambda>x. if x = ?a then ?a\<lparr>isSelected := False\<rparr>
                   else if x = answer2 then answer2\<lparr>isSelected := True\<rparr> else x) (answers ?q)"
    by blast
  have "answers q' = [answer1, answer2\<lparr>isSelected := True\<rparr>]"
    unfolding result using other off by simp
  with run state show ?thesis by blast
qed

text \<open>
  Claim C1 as stated fails. In \<open>question2\<close> the answers 1 and 2 are selected: selecting
  answer 3 deselects answer 1, the first selected answer, and answer 2 is still selected.
  In \<open>question3\<close> the selected answer shares its id with the answer before it: selecting
  answer 2 deselects the answer found under that id, which was not selected, and the
  selected answer is still selected.
\<close>

theorem selectAnswer_UCQ_exclusive_counterexample:
  "getState (dispatch (setQuestion question2) initStore) = Some question2
   \<and> question_type question2 = UCQ
   \<and> answer2\<lparr>isSelected := True\<rparr> \<in> set (answers question2)
   \<and> answer3 \<in> set (answers question2)
   \<and> answer3 \<noteq> answer2\<lparr>isSelected := True\<rparr>
   \<and> selectAnswer answer3 (dispatch (setQuestion question2) initStore)
       = (Inr (),
          \<lparr>getState = Some (question2\<lparr>answers :=
              [answer1, answer2\<lparr>isSelected := True\<rparr>, answer3\<lparr>isSelected := True\<rparr>]\<rparr>),
           dispatched = [SetQuestion question2,
              SetAnswerSelected (Some ''answer1'') False,
              SetAnswerSelected (Some ''answer3'') True]\<rparr>)
   \<and> getState (dispatch (setQuestion question3) initStore) = Some question3
   \<and> question_type question3 = UCQ
   \<and> filter isSelected (answers question3)
       = [answer1\<lparr>answer_text := Some ''fine'', isSelected := True\<rparr>]
   \<and> answer2 \<in> set (answers question3)
   \<and> answer2 \<noteq> answer1\<lparr>answer_text := Some ''fine'', isSelected := True\<rparr>
   \<and> selectAnswer answer2 (dispatch (setQuestion question3) initStore)
       = (Inr (),
          \<lparr>getState = Some (question3\<lparr>answers :=
              [answer1, answer1\<lparr>answer_text := Some ''fine'', isSelected := True\<rparr>,
               answer2\<lparr>isSelected := True\<rparr>]\<rparr>),
           dispatched = [SetQuestion question3,
              SetAnswerSelected (Some ''answer1'') False,
              SetAnswerSelected (Some ''answer2'') True]\<rparr>)"
  by (simp add: selectAnswer_def selectQuestion_def selectAnswers_def selectSelectedAnswers_def
      dispatch_def setQuestion_def setAnswerSelected_def initStore_def
      findIndex_def slice_def element_at_def spread_isSelected_def
      question1_def question2_def question3_def answer1_def answer2_def answer3_def)
section \<open>The single-choice invariant\<close>

lemma deselect_all_selected:
  assumes "filter isSelected xs = [f]"
  shows "filter isSelected
     (map (\<lambda>x. if answer_id x = answer_id f then x\<lparr>isSelected := False\<rparr> else x) xs) = []"
proof -
  have only: "x = f" if "x \<in> set xs" and "isSelected x" for x
  proof -
    have "x \<in> set (filter isSelected xs)" using that by simp
    then show ?thesis unfolding assms by simp
  qed
  show ?thesis unfolding filter_empty_conv using only by auto
qed

lemma deselect_no_more_selected:
  "length (filter isSelected
     (map (\<lambda>x. if answer_id x = aid then x\<lparr>isSelected := False\<rparr> else x) xs))
   \<le> length (filter isSelected xs)"
  by (induction xs) auto

lemma select_one_of_none:
  assumes "distinct (map answer_id xs)" and "\<forall>x\<in>set xs. \<not> isSelected x"
  shows "length (filter isSelected
     (map (\<lambda>x. if answer_id x = aid then x\<lparr>isSelected := True\<rparr> else x) xs)) \<le> 1"
  using assms
proof (induction xs)
  case Nil
  then show ?case by simp
next
  case (Cons x xs)
  show ?case
  proof (cases "answer_id x = aid")
    case True
    then have "aid \<notin> answer_id ` set xs" using Cons.prems(1) by auto
    then have "map (\<lambda>x. if answer_id x = aid then x\<lparr>isSelected := True\<rparr> else x) xs = xs"
      by (intro map_idI) auto
    moreover have "filter isSelected xs = []"
      unfolding filter_empty_conv using Cons.prems(2) by simp
    ultimately show ?thesis using True by simp
  next
    case False
    then show ?thesis using Cons by simp
  qed
qed

lemma reducer_known_id_invariant:
  assumes "distinct_ids q" and "aid \<in> answer_id ` set (answers q)"
  shows "\<exists>q'. reducer (Some q) (SetAnswerSelected aid v) = Some q'
     \<and> answers q' = map (\<lambda>x. if answer_id x = aid then x\<lparr>isSelected := v\<rparr> else x) (answers q)
     \<and> question_type q' = question_type q
     \<and> distinct_ids q' \<and> answer_id ` set (answers q') = answer_id ` set (answers q)"
proof -
  let ?q' = "q\<lparr>answers := map (\<lambda>x. if answer_id x = aid then x\<lparr>isSelected := v\<rparr> else x) (answers q)\<rparr>"
  have ids: "distinct (map answer_id (answers q))" using assms(1) by (simp add: distinct_ids_def)
  have step: "reducer (Some q) (SetAnswerSelected aid v) = Some ?q'"
    using ids assms(2) by (rule reducer_distinct_ids)
  have ans: "answers ?q' = map (\<lambda>x. if answer_id x = aid then x\<lparr>isSelected := v\<rparr> else x) (answers q)"
    by simp
  have "distinct_ids ?q'" unfolding distinct_ids_def ans map_ids_mark by (rule ids)
  moreover have "answer_id ` set (answers ?q') = answer_id ` set (answers q)"
    unfolding ans by (rule ids_mark)
  moreover have "question_type ?q' = question_type q" by simp
  ultimately show ?thesis using step ans by blast
qed

lemma selectAnswer_invariant:
  assumes "getState store = Some q" and "distinct_ids q" and "ucq_invariant q"
    and "answer_id b \<in> answer_id ` set (answers q)"
  shows "\<exists>q'. getState (snd (selectAnswer b store)) = Some q' \<and> distinct_ids q' \<and> ucq_invariant q'"
proof (cases "question_type q = UCQ \<and> filter isSelected (answers q) \<noteq> []")
  case False
  then have run: "selectAnswer b store = (Inr (), dispatch (SetAnswerSelected (answer_id b) True) store)"
    using selectAnswer_on_question [OF assms(1), of b] by (auto split: list.splits)
  from reducer_known_id_invariant [OF assms(2,4), of True]
  obtain q' where step: "reducer (Some q) (SetAnswerSelected (answer_id b) True) = Some q'"
    and ans: "answers q' = map (\<lambda>x. if answer_id x = answer_id b then x\<lparr>isSelected := True\<rparr> else x) (answers q)"
    and type: "question_type q' = question_type q" and ids: "distinct_ids q'"
    by blast
  have "ucq_invariant q'"
  proof (cases "question_type q = UCQ")
    case True
    with False have "filter isSelected (answers q) = []" by simp
    then have none: "\<forall>x\<in>set (answers q). \<not> isSelected x" by (simp add: filter_empty_conv)
    have "distinct (map answer_id (answers q))" using assms(2) by (simp add: distinct_ids_def)
    then show ?thesis unfolding ucq_invariant_def ans using none select_one_of_none by blast
  next
    case mcq: False
    then show ?thesis by (simp add: ucq_invariant_def type)
  qed
  then show ?thesis using run step ids assms(1) by (simp add: getState_dispatch)
next
  case True
  then have ucq: "question_type q = UCQ" by simp
  from True assms(3) obtain f where first: "filter isSelected (answers q) = [f]"
    unfolding ucq_invariant_def
    by (cases "filter isSelected (answers q)") (auto simp: length_Suc_conv)
  have f_mem: "f \<in> set (answers q)" using first_selected_member [OF first] by simp
  then have f_known: "answer_id f \<in> answer_id ` set (answers q)" by simp
  have run: "selectAnswer b store = (Inr (), dispatch (SetAnswerSelected (answer_id b) True)
      (dispatch (SetAnswerSelected (answer_id f) False) store))"
    using selectAnswer_on_question [OF assms(1), of b] ucq first by simp
  from reducer_known_id_invariant [OF assms(2) f_known, of False]
  obtain q1 where step1: "reducer (Some q) (SetAnswerSelected (answer_id f) False) = Some q1"
    and ans1: "answers q1 = map (\<lambda>x. if answer_id x = answer_id f then x\<lparr>isSelected := False\<rparr> else x) (answers q)"
    and type1: "question_type q1 = question_type q" and ids1: "distinct_ids q1"
    and known1: "answer_id ` set (answers q1) = answer_id ` set (answers q)"
    by blast
  have "filter isSelected (answers q1) = []"
    unfolding ans1 using first by (rule deselect_all_selected)
  then have none1: "\<forall>x\<in>set (answers q1). \<not> isSelected x" by (simp add: filter_empty_conv)
  have b_known1: "answer_id b \<in> answer_id ` set (answers q1)" unfolding known1 by (rule assms(4))
  from reducer_known_id_invariant [OF ids1 b_known1, of True]
  obtain q2 where step2: "reducer (Some q1) (SetAnswerSelected (answer_id b) True) = Some q2"
    and ans2: "answers q2 = map (\<lambda>x. if answer_id x = answer_id b then x\<lparr>isSelected := True\<rparr> else x) (answers q1)"
    and ids2: "distinct_ids q2"
    by blast
  have "distinct (map answer_id (answers q1))" using ids1 by (simp add: distinct_ids_def)
  then have "length (filter isSelected (answers q2)) \<le> 1"
    unfolding ans2 using none1 by (rule select_one_of_none)
  then have "ucq_invariant q2" by (simp add: ucq_invariant_def)
  then show ?thesis using run step1 step2 ids2 assms(1) by (simp add: getState_dispatch)
qed

lemma deselect_invariant:
  assumes "distinct_ids q" and "ucq_invariant q" and "aid \<in> answer_id ` set (answers q)"
  shows "\<exists>q'. reducer (Some q) (SetAnswerSelected aid False) = Some q'
     \<and> distinct_ids q' \<and> ucq_invariant q'"
proof -
  from reducer_known_id_invariant [OF assms(1,3), of False]
  obtain q' where step: "reducer (Some q) (SetAnswerSelected aid False) = Some q'"
    and ans: "answers q' = map (\<lambda>x. if answer_id x = aid then x\<lparr>isSelected := False\<rparr> else x) (answers q)"
    and type: "question_type q' = question_type q" and ids: "distinct_ids q'"
    by blast
  have "length (filter isSelected (answers q')) \<le> length (filter isSelected (answers q))"
    unfolding ans by (rule deselect_no_more_selected)
  then have "ucq_invariant q'" using assms(2) by (auto simp: ucq_invariant_def type)
  with step ids show ?thesis by blast
qed

lemma validateQuestion_state:
  "getState (snd (validateQuestion validate store)) = getState store
   \<or> (\<exists>q. getState store = Some q
        \<and> getState (snd (validateQuestion validate store)) = Some (q\<lparr>isValidated := True\<rparr>))"
  by (cases "getState store")
    (auto simp: validateQuestion_def selectQuestion_def selectAnswers_def
      selectSelectedAnswers_def dispatch_def setQuestionValidated_def split: sum.splits)

lemma isValidated_invariant:
  "distinct_ids (q\<lparr>isValidated := v\<rparr>) = distinct_ids q"
  "ucq_invariant (q\<lparr>isValidated := v\<rparr>) = ucq_invariant q"
  by (simp_all add: distinct_ids_def ucq_invariant_def)

text \<open>
  Claim C2, amended. In every store reached through \<open>setQuestion\<close> of questions that have
  pairwise distinct answer ids and satisfy the invariant, \<open>selectAnswer\<close> and
  \<open>setAnswerSelected(answer, false)\<close> of answers whose id is one of the current
  question's, \<open>setQuestionValidated\<close> and \<open>validateQuestion\<close>, the answer ids of the
  current question are pairwise distinct and, when its type is UCQ, at most one of its
  answers is selected.
\<close>

theorem reachable_single_choice:
  assumes "reachable store" and "getState store = Some q"
  shows "distinct (map answer_id (answers q))
     \<and> (question_type q = UCQ \<longrightarrow> length (filter isSelected (answers q)) \<le> 1)"
proof -
  have "distinct_ids q \<and> ucq_invariant q"
    using assms
  proof (induction arbitrary: q rule: reachable.induct)
    case created
    then show ?case by (simp add: initStore_def)
  next
    case (installed store question)
    then show ?case by (simp add: getState_dispatch setQuestion_def)
  next
    case (selected store answer)
    show ?case
    proof (cases "getState store")
      case None
      then have "snd (selectAnswer answer store) = store"
        by (simp add: selectAnswer_def selectQuestion_def)
      then show ?thesis using selected.prems None by simp
    next
      case (Some q0)
      then have "distinct_ids q0 \<and> ucq_invariant q0" by (rule selected.IH)
      moreover have "answer_id answer \<in> answer_id ` set (answers q0)"
        using selected.hyps(2) Some by blast
      ultimately obtain q' where "getState (snd (selectAnswer answer store)) = Some q'"
        and "distinct_ids q' \<and> ucq_invariant q'"
        using selectAnswer_invariant [OF Some] by blast
      then show ?thesis using selected.prems by simp
    qed
  next
    case (deselected store answer)
    show ?case
    proof (cases "getState store")
      case None
      then show ?thesis using deselected.prems
        by (simp add: getState_dispatch setAnswerSelected_def)
    next
      case (Some q0)
      then have "distinct_ids q0 \<and> ucq_invariant q0" by (rule deselected.IH)
      moreover have "answer_id answer \<in> answer_id ` set (answers q0)"
        using deselected.hyps(2) Some by blast
      ultimately obtain q'
        where "reducer (Some q0) (SetAnswerSelected (answer_id answer) False) = Some q'"
        and "distinct_ids q' \<and> ucq_invariant q'"
        using deselect_invariant by blast
      then show ?thesis using deselected.prems Some
        by (simp add: getState_dispatch setAnswerSelected_def)
    qed
  next
    case (marked store question validated)
    show ?case
    proof (cases "getState store")
      case None
      then show ?thesis using marked.prems
        by (simp add: getState_dispatch setQuestionValidated_def)
    next
      case (Some q0)
      then have "distinct_ids q0 \<and> ucq_invariant q0" by (rule marked.IH)
      moreover have "q = q0\<lparr>isValidated := validated\<rparr>"
        using marked.prems Some by (simp add: getState_dispatch setQuestionValidated_def)
      ultimately show ?thesis by (simp add: isValidated_invariant)
    qed
  next
    case (validated store validate)
    from validateQuestion_state [of validate store]
    show ?case
    proof
      assume "getState (snd (validateQuestion validate store)) = getState store"
      then have "getState store = Some q" using validated.prems by simp
      then show ?thesis by (rule validated.IH)
    next
      assume "\<exists>q0. getState store = Some q0
        \<and> getState (snd (validateQuestion validate store)) = Some (q0\<lparr>isValidated := True\<rparr>)"
      then obtain q0 where before: "getState store = Some q0"
        and after: "getState (snd (validateQuestion validate store)) = Some (q0\<lparr>isValidated := True\<rparr>)"
        by blast
      have "distinct_ids q0 \<and> ucq_invariant q0" using before by (rule validated.IH)
      moreover have "q = q0\<lparr>isValidated := True\<rparr>" using after validated.prems by simp
      ultimately show ?thesis by (simp add: isValidated_invariant)
    qed
  qed
  then show ?thesis by (simp add: distinct_ids_def ucq_invariant_def)
qed

theorem reachable_single_choice_witness:
  "reachable (snd (validateQuestion (\<lambda>ids. Inr True)
      (snd (selectAnswer answer2 (snd (selectAnswer answer1
        (dispatch (setQuestion question1) initStore)))))))
   \<and> getState (snd (validateQuestion (\<lambda>ids. Inr True)
      (snd (selectAnswer answer2 (snd (selectAnswer answer1
        (dispatch (setQuestion question1) initStore)))))))
     = Some (question1\<lparr>answers := [answer1, answer2\<lparr>isSelected := True\<rparr>], isValidated := True\<rparr>)
   \<and> question_type question1 = UCQ
   \<and> length (filter isSelected [answer1, answer2\<lparr>isSelected := True\<rparr>]) \<le> 1"
proof -
  let ?s1 = "dispatch (setQuestion question1) initStore"
  let ?s2 = "snd (selectAnswer answer1 ?s1)"
  let ?s3 = "snd (selectAnswer answer2 ?s2)"
  let ?s4 = "snd (validateQuestion (\<lambda>ids. Inr True) ?s3)"
  let ?q2 = "question1\<lparr>answers := [answer1\<lparr>isSelected := True\<rparr>, answer2]\<rparr>"
  let ?q4 = "question1\<lparr>answers := [answer1, answer2\<lparr>isSelected := True\<rparr>], isValidated := True\<rparr>"
  have g1: "getState ?s1 = Some question1" by (simp add: run_defs)
  have g2: "getState ?s2 = Some ?q2" by (simp add: run_defs value_defs)
  have g4: "getState ?s4 = Some ?q4" by (simp add: run_defs value_defs)
  have r1: "reachable ?s1"
    by (rule reachable.installed [OF reachable.created])
      (simp_all add: distinct_ids_def ucq_invariant_def value_defs)
  have k1: "\<forall>q. getState ?s1 = Some q \<longrightarrow> answer_id answer1 \<in> answer_id ` set (answers q)"
    unfolding g1 by (simp add: question1_def)
  have r2: "reachable ?s2" using r1 k1 by (rule reachable.selected)
  have k2: "\<forall>q. getState ?s2 = Some q \<longrightarrow> answer_id answer2 \<in> answer_id ` set (answers q)"
    unfolding g2 by simp
  have r3: "reachable ?s3" using r2 k2 by (rule reachable.selected)
  have r4: "reachable ?s4" using r3 by (rule reachable.validated)
  have ucq: "question_type question1 = UCQ" by (simp add: question1_def)
  have "question_type ?q4 = UCQ \<longrightarrow> length (filter isSelected (answers ?q4)) \<le> 1"
    using reachable_single_choice [OF r4 g4] by blast
  then have "length (filter isSelected [answer1, answer2\<lparr>isSelected := True\<rparr>]) \<le> 1"
    using ucq by simp
  with r4 g4 ucq show ?thesis by blast
qed

text \<open>
  Claim C2 as stated fails for two of the operations it lists. \<open>setQuestion\<close> installs
  whatever question it is given: \<open>question2\<close> has type UCQ and two selected answers. And
  \<open>setAnswerSelected(answer, true)\<close> dispatched directly selects without deselecting:
  after \<open>selectAnswer answer1\<close> on the question of the demonstration run it leaves both
  answers selected. The thunk itself breaks the invariant when two answers share an id:
  \<open>question3\<close> has one selected answer, and two after \<open>selectAnswer answer2\<close>.
\<close>

theorem single_choice_counterexample:
  "getState (dispatch (setQuestion question2) initStore) = Some question2
   \<and> question_type question2 = UCQ
   \<and> length (filter isSelected (answers question2)) = 2
   \<and> getState (dispatch (setAnswerSelected answer2 True)
        (snd (selectAnswer answer1 (dispatch (setQuestion question1) initStore))))
     = Some (question1\<lparr>answers :=
         [answer1\<lparr>isSelected := True\<rparr>, answer2\<lparr>isSelected := True\<rparr>]\<rparr>)
   \<and> question_type question1 = UCQ
   \<and> length (filter isSelected
        [answer1\<lparr>isSelected := True\<rparr>, answer2\<lparr>isSelected := True\<rparr>]) = 2
   \<and> question_type question3 = UCQ
   \<and> length (filter isSelected (answers question3)) = 1
   \<and> getState (snd (selectAnswer answer2 (dispatch (setQuestion question3) initStore)))
     = Some (question3\<lparr>answers :=
         [answer1, answer1\<lparr>answer_text := Some ''fine'', isSelected := True\<rparr>,
          answer2\<lparr>isSelected := True\<rparr>]\<rparr>)
   \<and> length (filter isSelected
        [answer1, answer1\<lparr>answer_text := Some ''fine'', isSelected := True\<rparr>,
         answer2\<lparr>isSelected := True\<rparr>]) = 2"
  by (simp add: run_defs value_defs question2_def question3_def)
section \<open>Selecting the same answer twice\<close>

lemma length_update_first: "length (update_first aid v xs) = length xs"
  by (simp add: update_first_def)

lemma ids_update_first: "map answer_id (update_first aid v xs) = map answer_id xs"
  unfolding update_first_def by (rule map_ids_select)

lemma known_update_first:
  "answer_id ` set (update_first aid v xs) = answer_id ` set xs"
proof -
  have "set (map answer_id (update_first aid v xs)) = set (map answer_id xs)"
    by (simp only: ids_update_first)
  then show ?thesis by (simp only: set_map)
qed

lemma first_with_id_update_first:
  "first_with_id aid' (update_first aid v xs) = first_with_id aid' xs"
  using ids_update_first by (rule first_with_id_map_ids)

lemma selected_update_first:
  assumes "j < length xs"
  shows "isSelected (update_first aid v xs ! j)
     = (if j = first_with_id aid xs then v else isSelected (xs ! j))"
  using assms by (simp add: update_first_def nth_list_update)

lemma update_first_same:
  assumes "first_with_id aid xs < length xs" and "isSelected (xs ! first_with_id aid xs) = v"
  shows "update_first aid v xs = xs"
proof -
  have "(xs ! first_with_id aid xs)\<lparr>isSelected := v\<rparr> = xs ! first_with_id aid xs"
    using assms(2) by simp
  then show ?thesis by (simp add: update_first_def)
qed

lemma update_first_twice:
  "update_first aid v (update_first aid w xs) = update_first aid v xs"
proof (cases "first_with_id aid xs < length xs")
  case True
  then show ?thesis
    by (simp add: update_first_def [of aid v] first_with_id_update_first)
      (simp add: update_first_def)
next
  case False
  then show ?thesis
    by (simp add: update_first_def [of aid v] first_with_id_update_first)
      (simp add: update_first_def list_update_beyond)
qed

lemma reducer_update_first:
  assumes "aid \<in> answer_id ` set (answers q)"
  shows "reducer (Some q) (SetAnswerSelected aid v) = Some (q\<lparr>answers := update_first aid v (answers q)\<rparr>)"
  using reducer_known_id [OF assms, of v] by (simp add: update_first_def)

lemma selectAnswer_state:
  assumes "getState store = Some q" and "answer_id b \<in> answer_id ` set (answers q)"
  shows "fst (selectAnswer b store) = Inr ()
     \<and> getState (snd (selectAnswer b store)) =
       Some (q\<lparr>answers := update_first (answer_id b) True
         (if question_type q = UCQ then deselect_first_selected (answers q) else answers q)\<rparr>)"
proof (cases "question_type q = UCQ \<and> filter isSelected (answers q) \<noteq> []")
  case False
  then have run: "selectAnswer b store = (Inr (), dispatch (SetAnswerSelected (answer_id b) True) store)"
    using selectAnswer_on_question [OF assms(1), of b] by (auto split: list.splits)
  have same: "(if question_type q = UCQ then deselect_first_selected (answers q) else answers q)
      = answers q"
    using False by (auto simp: deselect_first_selected_def)
  show ?thesis
    unfolding same using run reducer_update_first [OF assms(2), of True] assms(1)
    by (simp add: getState_dispatch)
next
  case True
  then obtain f rest where first: "filter isSelected (answers q) = f # rest"
    by (cases "filter isSelected (answers q)") auto
  have f_known: "answer_id f \<in> answer_id ` set (answers q)"
    using first_selected_member [OF first] by simp
  have run: "selectAnswer b store = (Inr (), dispatch (SetAnswerSelected (answer_id b) True)
      (dispatch (SetAnswerSelected (answer_id f) False) store))"
    using selectAnswer_on_question [OF assms(1), of b] True first by simp
  let ?q1 = "q\<lparr>answers := update_first (answer_id f) False (answers q)\<rparr>"
  have ans1: "answers ?q1 = update_first (answer_id f) False (answers q)" by simp
  have step1: "reducer (Some q) (SetAnswerSelected (answer_id f) False) = Some ?q1"
    using f_known by (rule reducer_update_first)
  have b_known1: "answer_id b \<in> answer_id ` set (answers ?q1)"
    unfolding ans1 known_update_first by (rule assms(2))
  have step2: "reducer (Some ?q1) (SetAnswerSelected (answer_id b) True)
      = Some (?q1\<lparr>answers := update_first (answer_id b) True (answers ?q1)\<rparr>)"
    using b_known1 by (rule reducer_update_first)
  have same: "(if question_type q = UCQ then deselect_first_selected (answers q) else answers q)
      = update_first (answer_id f) False (answers q)"
    using True first by (simp add: deselect_first_selected_def)
  show ?thesis
    unfolding same using run step1 step2 assms(1) by (simp add: getState_dispatch)
qed

lemma first_selected_position:
  assumes "filter isSelected xs = f # rest"
  shows "\<exists>p < length xs. xs ! p = f \<and> isSelected f \<and> (\<forall>j < p. \<not> isSelected (xs ! j))"
proof -
  from assms obtain us vs where split: "xs = us @ f # vs"
    and before: "\<forall>u\<in>set us. \<not> isSelected u" and sel: "isSelected f"
    unfolding filter_eq_Cons_iff by blast
  have "length us < length xs" using split by simp
  moreover have "xs ! length us = f" using split by simp
  moreover have "\<forall>j < length us. \<not> isSelected (xs ! j)"
    using split before by (simp add: nth_append)
  ultimately show ?thesis using sel by blast
qed

lemma none_selected:
  assumes "filter isSelected xs = []" and "j < length xs"
  shows "\<not> isSelected (xs ! j)"
  using assms by (simp add: filter_empty_conv)

lemma one_selected_position:
  assumes "length (filter isSelected xs) \<le> 1"
    and "p < length xs" and "isSelected (xs ! p)"
    and "p' < length xs" and "isSelected (xs ! p')"
  shows "p' = p"
proof (rule ccontr)
  assume differ: "p' \<noteq> p"
  have split: "xs = take p xs @ xs ! p # drop (Suc p) xs"
    using assms(2) by (rule id_take_nth_drop)
  have "length (filter isSelected (take p xs)) + 1 + length (filter isSelected (drop (Suc p) xs))
      = length (filter isSelected xs)"
    using assms(3) by (subst (3) split) simp
  then have "length (filter isSelected (take p xs)) = 0"
    and "length (filter isSelected (drop (Suc p) xs)) = 0"
    using assms(1) by arith+
  then have empty: "filter isSelected (take p xs) = []" "filter isSelected (drop (Suc p) xs) = []"
    by simp_all
  show False
  proof (cases "p' < p")
    case True
    then have "take p xs ! p' = xs ! p'" by simp
    moreover have "p' < length (take p xs)" using True assms(2) by simp
    ultimately show False using none_selected [OF empty(1), of p'] assms(5) by simp
  next
    case False
    then have after: "p < p'" using differ by simp
    then have "drop (Suc p) xs ! (p' - Suc p) = xs ! p'" using assms(4) by simp
    moreover have "p' - Suc p < length (drop (Suc p) xs)" using after assms(4) by simp
    ultimately show False using none_selected [OF empty(2), of "p' - Suc p"] assms(5) by simp
  qed
qed

lemma select_twice_on_answers:
  assumes few: "length (filter isSelected xs) \<le> 1" and known: "aid \<in> answer_id ` set xs"
  shows "update_first aid True
       (deselect_first_selected (update_first aid True (deselect_first_selected xs)))
     = update_first aid True (deselect_first_selected xs)"
proof -
  define ws where "ws = deselect_first_selected xs"
  define ys where "ys = update_first aid True ws"
  define i where "i = first_with_id aid xs"
  have len_ws: "length ws = length xs"
    by (simp add: ws_def deselect_first_selected_def length_update_first split: list.splits)
  have len_ys: "length ys = length xs" by (simp add: ys_def length_update_first len_ws)
  have ids_ws: "map answer_id ws = map answer_id xs"
    by (simp add: ws_def deselect_first_selected_def ids_update_first split: list.splits)
  have ids_ys: "map answer_id ys = map answer_id xs"
    by (simp add: ys_def ids_update_first ids_ws)
  have i_ws: "first_with_id aid ws = i" unfolding i_def using ids_ws by (rule first_with_id_map_ids)
  have i_ys: "first_with_id aid ys = i" unfolding i_def using ids_ys by (rule first_with_id_map_ids)
  have i_less: "i < length xs" unfolding i_def using known by (rule first_with_id_less)
  have sel_ys: "isSelected (ys ! j) = (if j = i then True else isSelected (ws ! j))"
    if "j < length xs" for j
    unfolding ys_def using that selected_update_first [of j ws aid True] by (simp add: len_ws i_ws)
  have sel_i: "isSelected (ys ! i)" using sel_ys [OF i_less] by simp
  have "filter isSelected ys \<noteq> []"
    using sel_i i_less len_ys by (auto simp: filter_empty_conv)
  then obtain f1 rest1 where first1: "filter isSelected ys = f1 # rest1"
    by (cases "filter isSelected ys") auto
  from first_selected_position [OF first1]
  obtain p1 where p1_less: "p1 < length ys" and p1_at: "ys ! p1 = f1"
    and p1_first: "\<forall>j < p1. \<not> isSelected (ys ! j)" and f1_sel: "isSelected f1"
    by blast
  define i1 where "i1 = first_with_id (answer_id f1) ys"
  have i1_le: "i1 \<le> p1" unfolding i1_def using first_with_id_le [OF p1_less] p1_at by simp
  have i1_less: "i1 < length ys" using i1_le p1_less by simp
  have pre_ys: "deselect_first_selected ys = update_first (answer_id f1) False ys"
    using first1 by (simp add: deselect_first_selected_def)
  have settled: "update_first aid True ys = ys"
    using i_less sel_i by (intro update_first_same) (simp_all add: i_ys len_ys)
  have known_ys: "aid \<in> answer_id ` set ys"
  proof -
    have "set (map answer_id ys) = set (map answer_id xs)" by (simp only: ids_ys)
    then have "answer_id ` set ys = answer_id ` set xs" by (simp only: set_map)
    then show ?thesis using known by simp
  qed
  have f1_known: "answer_id f1 \<in> answer_id ` set ys"
    using p1_less p1_at nth_mem [of p1 ys] by blast
  have "update_first aid True (update_first (answer_id f1) False ys) = ys"
  proof (cases "i1 = i")
    case True
    have "answer_id (ys ! i1) = answer_id f1"
      unfolding i1_def using f1_known by (rule first_with_id_carries)
    moreover have "answer_id (ys ! i) = aid"
      using first_with_id_carries [OF known_ys] by (simp add: i_ys)
    ultimately have "answer_id f1 = aid" using True by simp
    then show ?thesis
      using settled by (simp add: update_first_twice)
  next
    case False
    have unselected: "\<not> isSelected (ys ! i1)"
    proof
      assume sel_i1: "isSelected (ys ! i1)"
      have "\<not> i1 < p1" using p1_first sel_i1 by blast
      then have i1_p1: "i1 = p1" using i1_le by simp
      have p1_len: "p1 < length xs" using p1_less len_ys by simp
      have sel_ws: "isSelected (ws ! p1)"
        using sel_ys [OF p1_len] sel_i1 False i1_p1 by simp
      show False
      proof (cases "filter isSelected xs")
        case Nil
        then have "ws = xs" by (simp add: ws_def deselect_first_selected_def)
        then show False using sel_ws none_selected [OF Nil p1_len] by simp
      next
        case (Cons f rest)
        from first_selected_position [OF Cons]
        obtain p where p_less: "p < length xs" and p_at: "xs ! p = f" and f_sel: "isSelected f"
          by blast
        have ws_eq: "ws = update_first (answer_id f) False xs"
          using Cons by (simp add: ws_def deselect_first_selected_def)
        have sel_ws_p1: "isSelected (ws ! p1)
            = (if p1 = first_with_id (answer_id f) xs then False else isSelected (xs ! p1))"
          unfolding ws_eq using p1_len by (rule selected_update_first)
        have not_first: "p1 \<noteq> first_with_id (answer_id f) xs" and sel_xs: "isSelected (xs ! p1)"
          using sel_ws sel_ws_p1 by (auto split: if_splits)
        have "p1 = p"
          using one_selected_position [OF few p_less _ p1_len sel_xs] p_at f_sel by simp
        have "answer_id f1 = answer_id (xs ! p1)"
        proof -
          have "map answer_id ys ! p1 = map answer_id xs ! p1" by (simp only: ids_ys)
          then show ?thesis using p1_less p1_len p1_at by simp
        qed
        then have "answer_id f1 = answer_id f" using \<open>p1 = p\<close> p_at by simp
        then have "i1 = first_with_id (answer_id f) xs"
          unfolding i1_def using first_with_id_map_ids [OF ids_ys, of "answer_id f"] by simp
        then show False using not_first i1_p1 by simp
      qed
    qed
    have "update_first (answer_id f1) False ys = ys"
      using i1_less unselected by (intro update_first_same) (simp_all add: i1_def)
    then show ?thesis
      using settled by simp
  qed
  then have "update_first aid True (deselect_first_selected ys) = ys" by (simp only: pre_ys)
  then show ?thesis unfolding ys_def ws_def .
qed

lemma known_deselect_first_selected:
  "answer_id ` set (deselect_first_selected xs) = answer_id ` set xs"
  by (simp add: deselect_first_selected_def known_update_first split: list.splits)

text \<open>
  Claim C10, amended. On a store that holds a question, MCQ or UCQ with at most one
  selected answer, \<open>selectAnswer a\<close> for an answer \<open>a\<close> of the question returns normally
  both times, and the state after the second call is the state after the first.
\<close>

theorem selectAnswer_idempotent:
  assumes "getState store = Some q" and "a \<in> set (answers q)"
    and "question_type q = UCQ \<longrightarrow> length (filter isSelected (answers q)) \<le> 1"
  shows "fst (selectAnswer a store) = Inr ()
     \<and> fst (selectAnswer a (snd (selectAnswer a store))) = Inr ()
     \<and> getState (snd (selectAnswer a (snd (selectAnswer a store))))
         = getState (snd (selectAnswer a store))"
proof -
  let ?xs = "answers q"
  let ?pre = "if question_type q = UCQ then deselect_first_selected ?xs else ?xs"
  let ?ys = "update_first (answer_id a) True ?pre"
  let ?q1 = "q\<lparr>answers := ?ys\<rparr>"
  let ?store1 = "snd (selectAnswer a store)"
  have known: "answer_id a \<in> answer_id ` set ?xs" using assms(2) by (rule imageI)
  have once: "fst (selectAnswer a store) = Inr ()" and state1: "getState ?store1 = Some ?q1"
    using selectAnswer_state [OF assms(1) known] by simp_all
  have ans1: "answers ?q1 = ?ys" and type1: "question_type ?q1 = question_type q" by simp_all
  have "answer_id ` set ?ys = answer_id ` set ?xs"
    by (simp add: known_update_first known_deselect_first_selected)
  then have known1: "answer_id a \<in> answer_id ` set (answers ?q1)"
    unfolding ans1 using known by simp
  have twice: "fst (selectAnswer a ?store1) = Inr ()"
    and state2: "getState (snd (selectAnswer a ?store1)) =
       Some (?q1\<lparr>answers := update_first (answer_id a) True
         (if question_type ?q1 = UCQ then deselect_first_selected (answers ?q1)
          else answers ?q1)\<rparr>)"
    using selectAnswer_state [OF state1 known1] by simp_all
  have fixed: "update_first (answer_id a) True
      (if question_type ?q1 = UCQ then deselect_first_selected (answers ?q1) else answers ?q1)
      = ?ys"
  proof (cases "question_type q = UCQ")
    case True
    then have few: "length (filter isSelected ?xs) \<le> 1" using assms(3) by simp
    show ?thesis
      unfolding ans1 type1 using True select_twice_on_answers [OF few known] by simp
  next
    case False
    then show ?thesis unfolding ans1 type1 by (simp add: update_first_twice)
  qed
  have "getState (snd (selectAnswer a ?store1)) = Some ?q1"
    unfolding state2 fixed by simp
  then show ?thesis using once twice state1 by simp
qed

theorem selectAnswer_idempotent_witness:
  "getState (snd (selectAnswer answer2 (snd (selectAnswer answer2
      (dispatch (setQuestion (question1\<lparr>answers := [answer1\<lparr>isSelected := True\<rparr>, answer2]\<rparr>))
         initStore)))))
   = getState (snd (selectAnswer answer2
      (dispatch (setQuestion (question1\<lparr>answers := [answer1\<lparr>isSelected := True\<rparr>, answer2]\<rparr>))
         initStore)))
   \<and> getState (snd (selectAnswer answer2
      (dispatch (setQuestion (question1\<lparr>answers := [answer1\<lparr>isSelected := True\<rparr>, answer2]\<rparr>))
         initStore)))
     = Some (question1\<lparr>answers := [answer1, answer2\<lparr>isSelected := True\<rparr>]\<rparr>)"
proof -
  let ?q = "question1\<lparr>answers := [answer1\<lparr>isSelected := True\<rparr>, answer2]\<rparr>"
  let ?store = "dispatch (setQuestion ?q) initStore"
  have holds: "getState ?store = Some ?q" by (simp add: dispatch_def setQuestion_def)
  have mem: "answer2 \<in> set (answers ?q)" by simp
  have few: "question_type ?q = UCQ \<longrightarrow> length (filter isSelected (answers ?q)) \<le> 1"
    by (simp add: value_defs)
  have once: "getState (snd (selectAnswer answer2 ?store))
      = Some (question1\<lparr>answers := [answer1, answer2\<lparr>isSelected := True\<rparr>]\<rparr>)"
    by (simp add: run_defs value_defs)
  show ?thesis
    using selectAnswer_idempotent [OF holds mem few] once by blast
qed

text \<open>
  Claim C10 as stated fails on a UCQ question in which several answers are selected: each
  call deselects one of them. In \<open>question2\<close> the answers 1 and 2 are selected; the first
  \<open>selectAnswer answer3\<close> leaves answers 2 and 3 selected, the second leaves answer 3
  only.
\<close>

theorem selectAnswer_idempotent_counterexample:
  "getState (dispatch (setQuestion question2) initStore) = Some question2
   \<and> answer3 \<in> set (answers question2)
   \<and> getState (snd (selectAnswer answer3 (dispatch (setQuestion question2) initStore)))
     = Some (question2\<lparr>answers :=
         [answer1, answer2\<lparr>isSelected := True\<rparr>, answer3\<lparr>isSelected := True\<rparr>]\<rparr>)
   \<and> getState (snd (selectAnswer answer3
        (snd (selectAnswer answer3 (dispatch (setQuestion question2) initStore)))))
     = Some (question2\<lparr>answers := [answer1, answer2, answer3\<lparr>isSelected := True\<rparr>]\<rparr>)
   \<and> getState (snd (selectAnswer answer3
        (snd (selectAnswer answer3 (dispatch (setQuestion question2) initStore)))))
     \<noteq> getState (snd (selectAnswer answer3 (dispatch (setQuestion question2) initStore)))"
  by (simp add: run_defs value_defs question2_def)

end
